theory Spec2Isabelle
  imports Main "HOL-Library.Word"
begin

section \<open>Bytes, Python slices and integer conversion\<close>

type_synonym byte = "8 word"
type_synonym bytes = "byte list"

text \<open>
  The exceptions that can leave the methods of \<open>protocol.py\<close>: \<open>int.to_bytes\<close> raises
  \<open>OverflowError\<close> on a value that is negative or does not fit, and the socket's
  \<open>sendto\<close> raises \<open>OSError\<close> (\<open>socket.error\<close>). Failures of \<open>recvfrom\<close> are caught
  inside \<open>_receive_segment\<close> and never escape. A method that raises yields \<open>Inl\<close> of the
  error and no state: what the endpoint looks like after an exception is not followed.
\<close>

datatype error = OverflowError | SocketError

text \<open>Python's \<open>xs[:n]\<close> and \<open>xs[n:]\<close> for any integer \<open>n\<close>: a negative index counts
  from the end and is clamped at the front of the sequence.\<close>

definition py_take :: "int \<Rightarrow> 'a list \<Rightarrow> 'a list" where
  "py_take n xs = (if 0 \<le> n then take (nat n) xs else take (length xs - nat (- n)) xs)"

definition py_drop :: "int \<Rightarrow> 'a list \<Rightarrow> 'a list" where
  "py_drop n xs = (if 0 \<le> n then drop (nat n) xs else drop (length xs - nat (- n)) xs)"

text \<open>\<open>n.to_bytes(len, "big", signed=False)\<close>: the \<open>len\<close> base-256 digits of \<open>n\<close>, most
  significant first.\<close>

fun be_digits :: "nat \<Rightarrow> int \<Rightarrow> bytes" where
  "be_digits 0 n = []"
| "be_digits (Suc k) n = be_digits k (n div 256) @ [word_of_int (n mod 256)]"

definition to_bytes :: "int \<Rightarrow> nat \<Rightarrow> error + bytes" where
  "to_bytes n len =
     (if n < 0 \<or> 256 ^ len \<le> n then Inl OverflowError else Inr (be_digits len n))"

text \<open>\<open>int.from_bytes(bs, "big", signed=False)\<close>.\<close>

definition from_bytes :: "bytes \<Rightarrow> int" where
  "from_bytes bs = foldl (\<lambda>acc b. acc * 256 + uint b) 0 bs"

section \<open>TCPSegment\<close>

text \<open>
  A segment carries \<open>seq_number\<close>, \<open>ack_number\<close> and \<open>data\<close>. Its private
  \<open>_sending_time\<close> is read only by \<open>expired\<close>, which compares it with the wall clock;
  the answer of each \<open>expired\<close> query is an input of the environment (see \<open>channel\<close>),
  so the timestamp itself is not stored.
\<close>

record segment =
  seq_number :: int
  ack_number :: int
  data :: bytes

definition service_len :: nat where
  "service_len = 8 + 8"

definition dump :: "segment \<Rightarrow> error + bytes" where
  "dump s =
     (case to_bytes (seq_number s) 8 of
        Inl e \<Rightarrow> Inl e
      | Inr sq \<Rightarrow>
          (case to_bytes (ack_number s) 8 of
             Inl e \<Rightarrow> Inl e
           | Inr ak \<Rightarrow> Inr (sq @ ak @ data s)))"

definition load :: "bytes \<Rightarrow> segment" where
  "load d =
     \<lparr> seq_number = from_bytes (take 8 d),
       ack_number = from_bytes (drop 8 (take 16 d)),
       data = drop service_len d \<rparr>"

section \<open>The datagram channel\<close>

text \<open>
  \<open>UDPBasedProtocol\<close> wraps a UDP socket. What the socket answers is the environment
  of the protocol and is given as a script:
  \<^item> \<open>rx k\<close> is the outcome of the \<open>k\<close>-th call of \<open>recvfrom\<close>: a timeout, a socket
    error, or a datagram;
  \<^item> \<open>tx k d\<close> is the outcome of the \<open>k\<close>-th call of \<open>sendto\<close> when it is handed the
    datagram \<open>d\<close>: \<open>None\<close> when the socket raises, \<open>Some n\<close> when it reports \<open>n\<close> bytes
    sent;
  \<^item> \<open>clk k\<close> is the answer of the \<open>k\<close>-th \<open>expired\<close> query (the wall clock).
\<close>

datatype recv_outcome = Timeout | SocketFailure | Datagram bytes

record channel =
  rx :: "nat \<Rightarrow> recv_outcome"
  tx :: "nat \<Rightarrow> bytes \<Rightarrow> int option"
  clk :: "nat \<Rightarrow> bool"

section \<open>MyTCPProtocol: state\<close>

text \<open>
  The attributes of \<open>MyTCPProtocol\<close>, and the socket's side of the script: how many
  \<open>recvfrom\<close>, \<open>sendto\<close> and \<open>expired\<close> calls were made, and \<open>wire\<close>, the datagrams
  handed to \<open>sendto\<close> so far, oldest first. The socket's timeout setting only decides how
  long a \<open>recvfrom\<close> may wait and is not part of the state.
\<close>

record endpoint =
  sent_bytes_n :: int
  confirmed_bytes_n :: int
  received_bytes_n :: int
  send_window :: "(int \<times> segment) list"
  recv_window :: "(int \<times> segment) list"
  buffer :: bytes
  rx_pos :: nat
  tx_pos :: nat
  clk_pos :: nat
  wire :: "bytes list"

definition mss :: nat where
  "mss = 1500"

definition window_size :: nat where
  "window_size = mss * 12"

definition ack_crit_lag :: int where
  "ack_crit_lag = 20"

definition init :: endpoint where
  "init = \<lparr> sent_bytes_n = 0, confirmed_bytes_n = 0, received_bytes_n = 0,
            send_window = [], recv_window = [], buffer = [],
            rx_pos = 0, tx_pos = 0, clk_pos = 0, wire = [] \<rparr>"

text \<open>
  \<open>queue.PriorityQueue\<close> holds pairs \<open>(seq_number, segment)\<close> and hands out an entry with
  the least key. It is kept as a list sorted by key: \<open>put\<close> inserts in key order,
  \<open>queue[0]\<close> is the head and \<open>get\<close> removes the head.
\<close>

definition put :: "int \<times> segment \<Rightarrow> (int \<times> segment) list \<Rightarrow> (int \<times> segment) list" where
  "put e q = insort_key fst e q"

section \<open>MyTCPProtocol: socket calls\<close>

definition sendto :: "channel \<Rightarrow> bytes \<Rightarrow> endpoint \<Rightarrow> error + (int \<times> endpoint)" where
  "sendto ch d st =
     (case tx ch (tx_pos st) d of
        None \<Rightarrow> Inl SocketError
      | Some n \<Rightarrow> Inr (n, st\<lparr>tx_pos := Suc (tx_pos st), wire := wire st @ [d]\<rparr>))"

text \<open>\<open>recvfrom n\<close> returns at most \<open>n\<close> bytes of the datagram; \<open>None\<close> stands for the
  exceptions \<open>socket.timeout\<close> and \<open>socket.error\<close>.\<close>

definition recvfrom :: "channel \<Rightarrow> nat \<Rightarrow> endpoint \<Rightarrow> bytes option \<times> endpoint" where
  "recvfrom ch n st =
     (case rx ch (rx_pos st) of
        Datagram d \<Rightarrow> (Some (take n d), st\<lparr>rx_pos := Suc (rx_pos st)\<rparr>)
      | _ \<Rightarrow> (None, st\<lparr>rx_pos := Suc (rx_pos st)\<rparr>))"

text \<open>The property \<open>expired\<close> of the head of the send window.\<close>

definition expired :: "channel \<Rightarrow> endpoint \<Rightarrow> bool \<times> endpoint" where
  "expired ch st = (clk ch (clk_pos st), st\<lparr>clk_pos := Suc (clk_pos st)\<rparr>)"

section \<open>MyTCPProtocol: internal methods\<close>

definition send_segment :: "channel \<Rightarrow> segment \<Rightarrow> endpoint \<Rightarrow> error + (int \<times> endpoint)" where
  "send_segment ch seg st =
     (case dump seg of
        Inl e \<Rightarrow> Inl e
      | Inr d \<Rightarrow>
          (case sendto ch d st of
             Inl e \<Rightarrow> Inl e
           | Inr (total_sent, st1) \<Rightarrow>
               (let data_sent_len = total_sent - int service_len;
                    st2 = (if seq_number seg = sent_bytes_n st1
                           then st1\<lparr>sent_bytes_n := sent_bytes_n st1 + data_sent_len\<rparr>
                           else st1);
                    st3 = (if data_sent_len > 0
                           then st2\<lparr>send_window :=
                                  put (seq_number seg,
                                       seg\<lparr>data := py_take data_sent_len (data seg)\<rparr>)
                                      (send_window st2)\<rparr>
                           else st2)
                in Inr (data_sent_len, st3))))"

function process_recv_window :: "endpoint \<Rightarrow> endpoint" where
  "process_recv_window st =
     (case recv_window st of
        [] \<Rightarrow> st
      | (seq, seg) # rest \<Rightarrow>
          (let st1 = st\<lparr>recv_window := rest\<rparr> in
           if seq_number seg = received_bytes_n st1 then
             process_recv_window
               (st1\<lparr>buffer := buffer st1 @ data seg,
                    received_bytes_n := received_bytes_n st1 + int (length (data seg))\<rparr>)
           else if seq_number seg > received_bytes_n st1 then
             st1\<lparr>recv_window := put (seq, seg) (recv_window st1)\<rparr>
           else process_recv_window st1))"
  by pat_completeness auto
termination
  by (relation "measure (\<lambda>st. length (recv_window st))") auto

function process_send_window :: "endpoint \<Rightarrow> endpoint" where
  "process_send_window st =
     (case send_window st of
        [] \<Rightarrow> st
      | (seq, seg) # rest \<Rightarrow>
          (if seq < confirmed_bytes_n st
           then process_send_window (st\<lparr>send_window := rest\<rparr>)
           else st))"
  by pat_completeness auto
termination
  by (relation "measure (\<lambda>st. length (send_window st))") auto

definition receive_segment :: "channel \<Rightarrow> endpoint \<Rightarrow> error + (bool \<times> endpoint)" where
  "receive_segment ch st =
     (case recvfrom ch (mss + service_len) st of
        (None, st1) \<Rightarrow> Inr (False, st1)
      | (Some segment_data, st1) \<Rightarrow>
          (let seg = load segment_data in
           case (if length (data seg) > 0 then
                   (let st2 = process_recv_window
                                (st1\<lparr>recv_window := put (seq_number seg, seg) (recv_window st1)\<rparr>);
                        ack_segment = \<lparr> seq_number = sent_bytes_n st2,
                                        ack_number = received_bytes_n st2,
                                        data = [] \<rparr>
                    in case send_segment ch ack_segment st2 of
                         Inl e \<Rightarrow> Inl e
                       | Inr (_, st3) \<Rightarrow> Inr st3)
                 else Inr st1) of
             Inl e \<Rightarrow> Inl e
           | Inr st4 \<Rightarrow>
               Inr (True, process_send_window (st4\<lparr>confirmed_bytes_n := ack_number seg\<rparr>))))"

definition resend_earliest_segment :: "channel \<Rightarrow> endpoint \<Rightarrow> error + endpoint" where
  "resend_earliest_segment ch st =
     (case send_window st of
        [] \<Rightarrow> Inr st
      | (seq, seg) # rest \<Rightarrow>
          (case expired ch st of
             (False, st1) \<Rightarrow> Inr st1
           | (True, st1) \<Rightarrow>
               (case send_segment ch seg (st1\<lparr>send_window := rest\<rparr>) of
                  Inl e \<Rightarrow> Inl e
                | Inr (_, st2) \<Rightarrow> Inr st2)))"

section \<open>MyTCPProtocol: send and recv\<close>

text \<open>
  The condition of \<open>send\<close>'s loop and one pass through its body. The loop's variables are
  \<open>dat\<close> (what is left of the caller's data), \<open>sent_data_len\<close> and \<open>lag\<close>.
\<close>

definition send_cond :: "bytes \<Rightarrow> int \<Rightarrow> endpoint \<Rightarrow> bool" where
  "send_cond dat lag st \<longleftrightarrow>
     (dat \<noteq> [] \<or> confirmed_bytes_n st < sent_bytes_n st) \<and> lag < ack_crit_lag"

definition window_is_full :: "endpoint \<Rightarrow> bool" where
  "window_is_full st \<longleftrightarrow> sent_bytes_n st - confirmed_bytes_n st > int window_size"

text \<open>The two branches of the loop body: ``prepare and send a new segment'' and ``wait
  for acknowledgments before sending more data''.\<close>

definition send_new_segment ::
  "channel \<Rightarrow> bytes \<Rightarrow> int \<Rightarrow> int \<Rightarrow> endpoint \<Rightarrow> error + (bytes \<times> int \<times> int \<times> endpoint)" where
  "send_new_segment ch dat sent_data_len lag st =
     (let segment_size = min mss (length dat);
          segment_data = take segment_size dat;
          seg = \<lparr> seq_number = sent_bytes_n st,
                  ack_number = received_bytes_n st,
                  data = segment_data \<rparr>
      in case send_segment ch seg st of
           Inl e \<Rightarrow> Inl e
         | Inr (sent_length, st1) \<Rightarrow>
             Inr (py_drop sent_length dat, sent_data_len + sent_length, lag, st1))"

definition wait_for_acks ::
  "channel \<Rightarrow> bytes \<Rightarrow> int \<Rightarrow> int \<Rightarrow> endpoint \<Rightarrow> error + (bytes \<times> int \<times> int \<times> endpoint)" where
  "wait_for_acks ch dat sent_data_len lag st =
     (case receive_segment ch st of
        Inl e \<Rightarrow> Inl e
      | Inr (True, st1) \<Rightarrow> Inr (dat, sent_data_len, 0, st1)
      | Inr (False, st1) \<Rightarrow> Inr (dat, sent_data_len, lag + 1, st1))"

definition send_body ::
  "channel \<Rightarrow> bytes \<Rightarrow> int \<Rightarrow> int \<Rightarrow> endpoint \<Rightarrow> error + (bytes \<times> int \<times> int \<times> endpoint)" where
  "send_body ch dat sent_data_len lag st =
     (case (if \<not> window_is_full st \<and> dat \<noteq> []
            then send_new_segment ch dat sent_data_len lag st
            else wait_for_acks ch dat sent_data_len lag st) of
        Inl e \<Rightarrow> Inl e
      | Inr (dat1, len1, lag1, st1) \<Rightarrow>
          (case resend_earliest_segment ch st1 of
             Inl e \<Rightarrow> Inl e
           | Inr st2 \<Rightarrow> Inr (dat1, len1, lag1, st2)))"

text \<open>
  The loop of \<open>send\<close> can run forever, so it takes fuel: the number of passes it may make.
  \<open>None\<close> says that the fuel ran out with the loop condition still true; \<open>Some (Inl e)\<close>
  that an exception left the call; \<open>Some (Inr (n, rest, st))\<close> that the call returned
  \<open>n\<close>, with \<open>rest\<close> the part of the caller's data that was never sent.
\<close>

fun send_loop ::
  "channel \<Rightarrow> nat \<Rightarrow> bytes \<Rightarrow> int \<Rightarrow> int \<Rightarrow> endpoint
     \<Rightarrow> (error + (int \<times> bytes \<times> endpoint)) option" where
  "send_loop ch 0 dat sent_data_len lag st =
     (if send_cond dat lag st then None else Some (Inr (sent_data_len, dat, st)))"
| "send_loop ch (Suc fuel) dat sent_data_len lag st =
     (if send_cond dat lag st then
        (case send_body ch dat sent_data_len lag st of
           Inl e \<Rightarrow> Some (Inl e)
         | Inr (dat1, len1, lag1, st1) \<Rightarrow> send_loop ch fuel dat1 len1 lag1 st1)
      else Some (Inr (sent_data_len, dat, st)))"

definition send :: "channel \<Rightarrow> nat \<Rightarrow> bytes \<Rightarrow> endpoint \<Rightarrow> (error + (int \<times> endpoint)) option" where
  "send ch fuel dat st =
     (case send_loop ch fuel dat 0 0 st of
        None \<Rightarrow> None
      | Some (Inl e) \<Rightarrow> Some (Inl e)
      | Some (Inr (n, rest, st1)) \<Rightarrow> Some (Inr (n, st1)))"

text \<open>
  \<open>recv\<close>: the loop blocks in \<open>recvfrom\<close> without a timeout and can run forever as well
  (segments that bring no new bytes keep it going), so it takes fuel too.
\<close>

fun recv_loop ::
  "channel \<Rightarrow> nat \<Rightarrow> int \<Rightarrow> bytes \<Rightarrow> endpoint \<Rightarrow> (error + (bytes \<times> endpoint)) option" where
  "recv_loop ch 0 n dat st =
     (if int (length dat) < n then None else Some (Inr (dat, st)))"
| "recv_loop ch (Suc fuel) n dat st =
     (if int (length dat) < n then
        (case receive_segment ch st of
           Inl e \<Rightarrow> Some (Inl e)
         | Inr (False, st1) \<Rightarrow> Some (Inr (dat, st1))
         | Inr (True, st1) \<Rightarrow>
             (let additional_data = py_take (n - int (length dat)) (buffer st1)
              in recv_loop ch fuel n (dat @ additional_data)
                   (st1\<lparr>buffer := py_drop (int (length additional_data)) (buffer st1)\<rparr>)))
      else Some (Inr (dat, st)))"

definition recv :: "channel \<Rightarrow> nat \<Rightarrow> int \<Rightarrow> endpoint \<Rightarrow> (error + (bytes \<times> endpoint)) option" where
  "recv ch fuel n st =
     recv_loop ch fuel n (py_take n (buffer st)) (st\<lparr>buffer := py_drop n (buffer st)\<rparr>)"

section \<open>Sequences of operations\<close>

text \<open>
  What happens to an endpoint is a sequence of events: a pass through the body of \<open>send\<close>'s
  loop (with the loop's current \<open>dat\<close> and \<open>lag\<close>, and only when the loop condition holds),
  a call of \<open>_receive_segment\<close> as \<open>recv\<close>'s loop makes it, and \<open>recv\<close> cutting bytes off
  the front of the buffer. An event that raises has no successor state.
\<close>

datatype event = SendPass bytes int | ReceiveSegment | TakeBuffer int

fun step :: "channel \<Rightarrow> event \<Rightarrow> endpoint \<Rightarrow> endpoint option" where
  "step ch (SendPass dat lag) st =
     (if send_cond dat lag st then
        (case send_body ch dat 0 lag st of
           Inl e \<Rightarrow> None
         | Inr (dat1, len1, lag1, st1) \<Rightarrow> Some st1)
      else None)"
| "step ch ReceiveSegment st =
     (case receive_segment ch st of
        Inl e \<Rightarrow> None
      | Inr (b, st1) \<Rightarrow> Some st1)"
| "step ch (TakeBuffer n) st = Some (st\<lparr>buffer := py_drop n (buffer st)\<rparr>)"

fun run :: "channel \<Rightarrow> event list \<Rightarrow> endpoint \<Rightarrow> endpoint option" where
  "run ch [] st = Some st"
| "run ch (e # es) st =
     (case step ch e st of
        None \<Rightarrow> None
      | Some st1 \<Rightarrow> run ch es st1)"

text \<open>Whether an event, taken in a state, calls \<open>recvfrom\<close>, and the \<open>ack\<close> field of the
  segment that the next \<open>recvfrom\<close> would deliver.\<close>

fun receives :: "event \<Rightarrow> endpoint \<Rightarrow> bool" where
  "receives (SendPass dat lag) st \<longleftrightarrow> window_is_full st \<or> dat = []"
| "receives ReceiveSegment st \<longleftrightarrow> True"
| "receives (TakeBuffer n) st \<longleftrightarrow> False"

definition inbound_ack :: "channel \<Rightarrow> endpoint \<Rightarrow> int option" where
  "inbound_ack ch st =
     (case rx ch (rx_pos st) of
        Datagram d \<Rightarrow> Some (ack_number (load (take (mss + service_len) d)))
      | _ \<Rightarrow> None)"




text \<open>The contract of \<open>socket.sendto\<close> on the datagrams of this protocol (a header and
  a payload): the count it reports covers at least the header and at most the datagram. \<open>tx_progress\<close>: of a datagram with payload, some
  payload is accepted.\<close>

definition tx_ok :: "channel \<Rightarrow> bool" where
  "tx_ok ch \<longleftrightarrow>
     (\<forall>k d n. tx ch k d = Some n \<longrightarrow> service_len \<le> length d \<longrightarrow>
        int service_len \<le> n \<and> n \<le> int (length d))"


definition rx_fails :: "channel \<Rightarrow> nat \<Rightarrow> bool" where
  "rx_fails ch k \<longleftrightarrow> (case rx ch k of Datagram d \<Rightarrow> False | _ \<Rightarrow> True)"


definition send_window_ok :: "endpoint \<Rightarrow> bool" where
  "send_window_ok st \<longleftrightarrow>
     (\<forall>(k, s) \<in> set (send_window st).
        k = seq_number s \<and> data s \<noteq> [] \<and> seq_number s + int (length (data s)) \<le> sent_bytes_n st)"

section \<open>Example channels\<close>

text \<open>The datagram that \<open>dump\<close> makes of a segment whose numbers fit, as a peer sends
  it; a \<open>sendto\<close> that always takes the whole datagram; and the channels used in the
  examples below.\<close>

definition wire_bytes :: "int \<Rightarrow> int \<Rightarrow> bytes \<Rightarrow> bytes" where
  "wire_bytes sq ak payload = be_digits 8 sq @ be_digits 8 ak @ payload"

definition full_send :: "nat \<Rightarrow> bytes \<Rightarrow> int option" where
  "full_send k d = Some (int (length d))"

text \<open>A peer that never answers.\<close>

definition silent_peer :: channel where
  "silent_peer = \<lparr> rx = (\<lambda>k. Timeout), tx = full_send, clk = (\<lambda>k. False) \<rparr>"

text \<open>A peer whose one answer is a pure acknowledgment of the first byte.\<close>

definition acking_peer :: channel where
  "acking_peer =
     \<lparr> rx = (\<lambda>k. if k = 0 then Datagram (wire_bytes 0 1 []) else Timeout),
       tx = full_send, clk = (\<lambda>k. False) \<rparr>"



text \<open>The peer sends three bytes of its own before it has seen anything; the timer of the
  first segment sent has run out at the second \<open>expired\<close> query.\<close>

definition crossing_peer :: channel where
  "crossing_peer =
     \<lparr> rx = (\<lambda>k. if k = 0 then Datagram (wire_bytes 0 0 [7, 7, 7]) else Timeout),
       tx = full_send, clk = (\<lambda>k. k = 1) \<rparr>"


text \<open>The endpoint after its first pass through \<open>send\<close>'s loop with one byte to send,
  and after the acknowledgment of that byte.\<close>

definition one_byte_sent :: endpoint where
  "one_byte_sent =
     \<lparr> sent_bytes_n = 1, confirmed_bytes_n = 0, received_bytes_n = 0,
       send_window = [(0, \<lparr>seq_number = 0, ack_number = 0, data = [1]\<rparr>)],
       recv_window = [], buffer = [], rx_pos = 0, tx_pos = 1, clk_pos = 1,
       wire = [wire_bytes 0 0 [1]] \<rparr>"

definition one_byte_acked :: endpoint where
  "one_byte_acked =
     \<lparr> sent_bytes_n = 1, confirmed_bytes_n = 1, received_bytes_n = 0,
       send_window = [], recv_window = [], buffer = [], rx_pos = 1, tx_pos = 1, clk_pos = 1,
       wire = [wire_bytes 0 0 [1]] \<rparr>"



text \<open>The endpoint after the three bytes of \<open>crossing_peer\<close> have arrived and were
  acknowledged.\<close>

definition three_bytes_received :: endpoint where
  "three_bytes_received =
     \<lparr> sent_bytes_n = 0, confirmed_bytes_n = 0, received_bytes_n = 3,
       send_window = [], recv_window = [], buffer = [7, 7, 7], rx_pos = 1, tx_pos = 1,
       clk_pos = 0, wire = [wire_bytes 0 3 []] \<rparr>"


section \<open>Codec lemmas\<close>

lemma length_be_digits: "length (be_digits k n) = k"
  by (induction k arbitrary: n) simp_all

lemma from_bytes_snoc: "from_bytes (bs @ [b]) = from_bytes bs * 256 + uint b"
  by (simp add: from_bytes_def)

lemma from_bytes_nonneg: "0 \<le> from_bytes bs"
  by (induction bs rule: rev_induct) (simp_all add: from_bytes_def)

lemma uint_byte_of_mod: "uint (word_of_int (n mod 256) :: byte) = n mod 256"
  by (simp add: uint_word_of_int_eq take_bit_eq_mod)

lemma from_bytes_be_digits: "0 \<le> n \<Longrightarrow> from_bytes (be_digits k n) = n mod 256 ^ k"
proof (induction k arbitrary: n)
  case 0
  then show ?case by (simp add: from_bytes_def)
next
  case (Suc k)
  have "0 \<le> n div 256" using Suc.prems by simp
  then have "from_bytes (be_digits k (n div 256)) = (n div 256) mod 256 ^ k"
    by (rule Suc.IH)
  then have "from_bytes (be_digits (Suc k) n) = ((n div 256) mod 256 ^ k) * 256 + n mod 256"
    by (simp add: from_bytes_snoc uint_byte_of_mod)
  also have "\<dots> = n mod (256 * 256 ^ k)"
    using zmod_zmult2_eq [of "256 ^ k" n 256] by (simp add: mult.commute)
  finally show ?case by simp
qed

lemma from_bytes_to_bytes:
  assumes "0 \<le> n" and "n < 256 ^ k"
  shows "to_bytes n k = Inr (be_digits k n)" and "from_bytes (be_digits k n) = n"
  using assms by (simp_all add: to_bytes_def from_bytes_be_digits)

lemma from_bytes_zero_padded: "from_bytes (replicate k 0 @ bs) = from_bytes bs"
  by (induction k) (simp_all add: from_bytes_def)

lemma from_bytes_bound: "from_bytes bs < 256 ^ length bs"
proof (induction bs rule: rev_induct)
  case Nil
  then show ?case by (simp add: from_bytes_def)
next
  case (snoc b bs)
  have "uint b < 256" using uint_bounded [of b] by simp
  with snoc have "from_bytes bs * 256 + uint b < 256 ^ length bs * 256"
    by linarith
  then show ?case by (simp add: from_bytes_snoc)
qed

section \<open>Segment codec\<close>

text \<open>
  C9. For a segment whose \<open>seq_number\<close> and \<open>ack_number\<close> lie in \<open>[0, 2^64)\<close>, \<open>dump\<close>
  succeeds and yields 16 header bytes followed by the payload: the first eight bytes are
  the big-endian \<open>seq_number\<close>, the next eight the big-endian \<open>ack_number\<close>; \<open>load\<close> of
  that encoding gives back the same segment.
\<close>

theorem dump_load_roundtrip:
  assumes "0 \<le> seq_number s" and "seq_number s < 2 ^ 64"
    and "0 \<le> ack_number s" and "ack_number s < 2 ^ 64"
  shows "\<exists>d. dump s = Inr d
           \<and> length d = 16 + length (data s)
           \<and> take 8 d = be_digits 8 (seq_number s)
           \<and> drop 8 (take 16 d) = be_digits 8 (ack_number s)
           \<and> from_bytes (take 8 d) = seq_number s
           \<and> from_bytes (drop 8 (take 16 d)) = ack_number s
           \<and> drop 16 d = data s
           \<and> load d = s"
proof -
  let ?sq = "be_digits 8 (seq_number s)" and ?ak = "be_digits 8 (ack_number s)"
  let ?d = "?sq @ ?ak @ data s"
  have p: "(256::int) ^ 8 = 2 ^ 64" by simp
  have sq: "to_bytes (seq_number s) 8 = Inr ?sq" "from_bytes ?sq = seq_number s"
    using assms(1,2) from_bytes_to_bytes [of "seq_number s" 8] by (simp_all only: p)
  have ak: "to_bytes (ack_number s) 8 = Inr ?ak" "from_bytes ?ak = ack_number s"
    using assms(3,4) from_bytes_to_bytes [of "ack_number s" 8] by (simp_all only: p)
  have len: "length ?sq = 8" "length ?ak = 8" by (simp_all only: length_be_digits)
  have d: "dump s = Inr ?d" by (simp add: dump_def sq(1) ak(1))
  have t8: "take 8 ?d = ?sq" using len by simp
  have t16: "drop 8 (take 16 ?d) = ?ak" using len by simp
  have d16: "drop 16 ?d = data s" using len by simp
  have "load ?d = s"
    unfolding load_def service_len_def using t8 t16 d16 sq(2) ak(2) by simp
  moreover have "length ?d = 16 + length (data s)" using len by simp
  ultimately show ?thesis using d t8 t16 d16 sq(2) ak(2) by auto
qed

theorem dump_load_roundtrip_witness:
  "\<exists>d. dump \<lparr>seq_number = 3000, ack_number = 7, data = [1, 2, 3]\<rparr> = Inr d
       \<and> length d = 19
       \<and> load d = \<lparr>seq_number = 3000, ack_number = 7, data = [1, 2, 3]\<rparr>"
  using dump_load_roundtrip [of "\<lparr>seq_number = 3000, ack_number = 7, data = [1, 2, 3]\<rparr>"]
  by auto

section \<open>What the internal methods change\<close>

declare process_recv_window.simps [simp del]
declare process_send_window.simps [simp del]

lemma sendto_Inr:
  "sendto ch d st = Inr (n, st') \<longleftrightarrow>
     tx ch (tx_pos st) d = Some n \<and> st' = st\<lparr>tx_pos := Suc (tx_pos st), wire := wire st @ [d]\<rparr>"
  by (auto simp: sendto_def split: option.splits)

lemma send_segment_Inr:
  assumes "send_segment ch seg st = Inr (k, st')"
  shows "\<exists>d n. dump seg = Inr d \<and> tx ch (tx_pos st) d = Some n \<and> k = n - 16
     \<and> wire st' = wire st @ [d]"
   and "sent_bytes_n st' =
          (if seq_number seg = sent_bytes_n st then sent_bytes_n st + k else sent_bytes_n st)"
   and "send_window st' =
          (if k > 0 then put (seq_number seg, seg\<lparr>data := py_take k (data seg)\<rparr>) (send_window st)
           else send_window st)"
   and "confirmed_bytes_n st' = confirmed_bytes_n st"
   and "received_bytes_n st' = received_bytes_n st"
   and "recv_window st' = recv_window st"
   and "buffer st' = buffer st"
   and "rx_pos st' = rx_pos st"
   and "clk_pos st' = clk_pos st"
   and "tx_pos st' = Suc (tx_pos st)"
proof -
  from assms obtain d where d: "dump seg = Inr d"
    by (cases "dump seg") (simp_all add: send_segment_def)
  from assms d obtain n st1 where s: "sendto ch d st = Inr (n, st1)"
    by (cases "sendto ch d st") (auto simp add: send_segment_def)
  from s have n: "tx ch (tx_pos st) d = Some n"
    and st1: "st1 = st\<lparr>tx_pos := Suc (tx_pos st), wire := wire st @ [d]\<rparr>"
    by (simp_all add: sendto_Inr)
  from assms d s have k: "k = n - 16"
    by (simp add: send_segment_def service_len_def Let_def)
  from assms d s have st': "st' = (let st2 = (if seq_number seg = sent_bytes_n st1
                           then st1\<lparr>sent_bytes_n := sent_bytes_n st1 + k\<rparr>
                           else st1) in (if k > 0
                           then st2\<lparr>send_window :=
                                  put (seq_number seg,
                                       seg\<lparr>data := py_take k (data seg)\<rparr>)
                                      (send_window st2)\<rparr>
                           else st2))"
    by (auto simp add: send_segment_def service_len_def Let_def k split: if_splits)
  show "\<exists>d n. dump seg = Inr d \<and> tx ch (tx_pos st) d = Some n \<and> k = n - 16
     \<and> wire st' = wire st @ [d]"
    using d n k by (auto simp: st' st1 Let_def)
  show "sent_bytes_n st' =
          (if seq_number seg = sent_bytes_n st then sent_bytes_n st + k else sent_bytes_n st)"
    by (simp add: st' st1 Let_def)
  show "send_window st' =
          (if k > 0 then put (seq_number seg, seg\<lparr>data := py_take k (data seg)\<rparr>) (send_window st)
           else send_window st)"
    by (simp add: st' st1 Let_def)
  show "confirmed_bytes_n st' = confirmed_bytes_n st" by (simp add: st' st1 Let_def)
  show "received_bytes_n st' = received_bytes_n st" by (simp add: st' st1 Let_def)
  show "recv_window st' = recv_window st" by (simp add: st' st1 Let_def)
  show "buffer st' = buffer st" by (simp add: st' st1 Let_def)
  show "rx_pos st' = rx_pos st" by (simp add: st' st1 Let_def)
  show "clk_pos st' = clk_pos st" by (simp add: st' st1 Let_def)
  show "tx_pos st' = Suc (tx_pos st)" by (simp add: st' st1 Let_def)
qed

lemma prw_Nil: "recv_window st = [] \<Longrightarrow> process_recv_window st = st"
  by (subst process_recv_window.simps) simp

lemma prw_eq:
  "recv_window st = (seq, seg) # rest \<Longrightarrow> seq_number seg = received_bytes_n st \<Longrightarrow>
   process_recv_window st =
     process_recv_window (st\<lparr>recv_window := rest, buffer := buffer st @ data seg,
        received_bytes_n := received_bytes_n st + int (length (data seg))\<rparr>)"
  by (subst process_recv_window.simps) (simp add: Let_def)

lemma prw_gt:
  "recv_window st = (seq, seg) # rest \<Longrightarrow> seq_number seg > received_bytes_n st \<Longrightarrow>
   process_recv_window st = st\<lparr>recv_window := put (seq, seg) rest\<rparr>"
  by (subst process_recv_window.simps) (simp add: Let_def)

lemma prw_lt:
  "recv_window st = (seq, seg) # rest \<Longrightarrow> seq_number seg < received_bytes_n st \<Longrightarrow>
   process_recv_window st = process_recv_window (st\<lparr>recv_window := rest\<rparr>)"
  by (subst process_recv_window.simps) (simp add: Let_def)

lemma prw_induct [case_names Nil eq gt lt]:
  assumes "\<And>st. recv_window st = [] \<Longrightarrow> P st"
    and "\<And>st seq seg rest. recv_window st = (seq, seg) # rest \<Longrightarrow>
           seq_number seg = received_bytes_n st \<Longrightarrow>
           P (st\<lparr>recv_window := rest, buffer := buffer st @ data seg,
                received_bytes_n := received_bytes_n st + int (length (data seg))\<rparr>) \<Longrightarrow> P st"
    and "\<And>st seq seg rest. recv_window st = (seq, seg) # rest \<Longrightarrow>
           seq_number seg > received_bytes_n st \<Longrightarrow> P st"
    and "\<And>st seq seg rest. recv_window st = (seq, seg) # rest \<Longrightarrow>
           seq_number seg < received_bytes_n st \<Longrightarrow> P (st\<lparr>recv_window := rest\<rparr>) \<Longrightarrow> P st"
  shows "P st"
proof (induction "length (recv_window st)" arbitrary: st rule: less_induct)
  case less
  show ?case
  proof (cases "recv_window st")
    case Nil
    then show ?thesis by (rule assms(1))
  next
    case (Cons a rest)
    obtain seq seg where a: "a = (seq, seg)" by (cases a)
    have w: "recv_window st = (seq, seg) # rest" using Cons a by simp
    consider "seq_number seg = received_bytes_n st" | "seq_number seg > received_bytes_n st"
      | "seq_number seg < received_bytes_n st" by linarith
    then show ?thesis
    proof cases
      case 1
      show ?thesis by (rule assms(2) [OF w 1], rule less) (simp add: w)
    next
      case 2
      show ?thesis by (rule assms(3) [OF w 2])
    next
      case 3
      show ?thesis by (rule assms(4) [OF w 3], rule less) (simp add: w)
    qed
  qed
qed

lemma prw_frame [simp]:
  "sent_bytes_n (process_recv_window st) = sent_bytes_n st"
  "confirmed_bytes_n (process_recv_window st) = confirmed_bytes_n st"
  "send_window (process_recv_window st) = send_window st"
  "rx_pos (process_recv_window st) = rx_pos st"
  "tx_pos (process_recv_window st) = tx_pos st"
  "clk_pos (process_recv_window st) = clk_pos st"
  "wire (process_recv_window st) = wire st"
  by (induction st rule: prw_induct; simp add: prw_Nil prw_eq prw_gt prw_lt)+

lemma psw_Nil: "send_window st = [] \<Longrightarrow> process_send_window st = st"
  by (subst process_send_window.simps) simp

lemma psw_drop:
  "send_window st = (seq, seg) # rest \<Longrightarrow> seq < confirmed_bytes_n st \<Longrightarrow>
   process_send_window st = process_send_window (st\<lparr>send_window := rest\<rparr>)"
  by (subst process_send_window.simps) simp

lemma psw_stop:
  "send_window st = (seq, seg) # rest \<Longrightarrow> \<not> seq < confirmed_bytes_n st \<Longrightarrow>
   process_send_window st = st"
  by (subst process_send_window.simps) simp

lemma psw_induct [case_names Nil drop stop]:
  assumes "\<And>st. send_window st = [] \<Longrightarrow> P st"
    and "\<And>st seq seg rest. send_window st = (seq, seg) # rest \<Longrightarrow>
           seq < confirmed_bytes_n st \<Longrightarrow> P (st\<lparr>send_window := rest\<rparr>) \<Longrightarrow> P st"
    and "\<And>st seq seg rest. send_window st = (seq, seg) # rest \<Longrightarrow>
           \<not> seq < confirmed_bytes_n st \<Longrightarrow> P st"
  shows "P st"
proof (induction "length (send_window st)" arbitrary: st rule: less_induct)
  case less
  show ?case
  proof (cases "send_window st")
    case Nil
    then show ?thesis by (rule assms(1))
  next
    case (Cons a rest)
    obtain seq seg where a: "a = (seq, seg)" by (cases a)
    have w: "send_window st = (seq, seg) # rest" using Cons a by simp
    show ?thesis
    proof (cases "seq < confirmed_bytes_n st")
      case True
      show ?thesis by (rule assms(2) [OF w True], rule less) (simp add: w)
    next
      case False
      show ?thesis by (rule assms(3) [OF w False])
    qed
  qed
qed

lemma psw_frame [simp]:
  "sent_bytes_n (process_send_window st) = sent_bytes_n st"
  "confirmed_bytes_n (process_send_window st) = confirmed_bytes_n st"
  "received_bytes_n (process_send_window st) = received_bytes_n st"
  "recv_window (process_send_window st) = recv_window st"
  "buffer (process_send_window st) = buffer st"
  "rx_pos (process_send_window st) = rx_pos st"
  "tx_pos (process_send_window st) = tx_pos st"
  "clk_pos (process_send_window st) = clk_pos st"
  "wire (process_send_window st) = wire st"
  by (induction st rule: psw_induct; simp add: psw_Nil psw_drop psw_stop)+

lemma psw_subset: "set (send_window (process_send_window st)) \<subseteq> set (send_window st)"
  by (induction st rule: psw_induct) (auto simp add: psw_Nil psw_drop psw_stop)

lemma dump_Inr:
  "dump seg = Inr d \<Longrightarrow>
     d = be_digits 8 (seq_number seg) @ be_digits 8 (ack_number seg) @ data seg
     \<and> 0 \<le> seq_number seg \<and> seq_number seg < 2 ^ 64
     \<and> 0 \<le> ack_number seg \<and> ack_number seg < 2 ^ 64"
  by (auto simp: dump_def to_bytes_def split: if_splits)

lemma dump_length: "dump seg = Inr d \<Longrightarrow> length d = 16 + length (data seg)"
  by (auto dest!: dump_Inr simp: length_be_digits)

lemma set_put [simp]: "set (put e q) = insert e (set q)"
  by (simp add: put_def set_insort_key)

lemma py_take_pos: "0 < k \<Longrightarrow> xs \<noteq> [] \<Longrightarrow> py_take k xs \<noteq> []"
  by (cases xs) (auto simp: py_take_def nat_eq_iff)

lemma length_py_take_le: "length (py_take k xs) \<le> length xs"
  by (simp add: py_take_def)

lemma length_py_take: "0 \<le> k \<Longrightarrow> k \<le> int (length xs) \<Longrightarrow> int (length (py_take k xs)) = k"
  by (simp add: py_take_def)

lemma send_segment_summary:
  assumes tx: "tx_ok ch" and ok: "send_window_ok st"
    and seg: "seq_number seg = sent_bytes_n st
              \<or> (data seg \<noteq> [] \<and> seq_number seg + int (length (data seg)) \<le> sent_bytes_n st)"
    and s: "send_segment ch seg st = Inr (k, st')"
  shows "send_window_ok st'" and "0 \<le> k" and "k \<le> int (length (data seg))"
    and "sent_bytes_n st' = (if seq_number seg = sent_bytes_n st then sent_bytes_n st + k else sent_bytes_n st)"
proof -
  from send_segment_Inr(1) [OF s] obtain d n where
    d: "dump seg = Inr d" and n: "tx ch (tx_pos st) d = Some n" and k: "k = n - 16"
    by blast
  have ld: "length d = 16 + length (data seg)" by (rule dump_length [OF d])
  then have "service_len \<le> length d" by (simp add: service_len_def)
  with tx n have "int service_len \<le> n \<and> n \<le> int (length d)"
    unfolding tx_ok_def by blast
  then have "16 \<le> n" "n \<le> int (length d)" by (simp_all add: service_len_def)
  with dump_length [OF d] k show k0: "0 \<le> k" and kl: "k \<le> int (length (data seg))" by simp_all
  show sent: "sent_bytes_n st' = (if seq_number seg = sent_bytes_n st then sent_bytes_n st + k else sent_bytes_n st)"
    by (rule send_segment_Inr(2) [OF s])
  have mono: "sent_bytes_n st \<le> sent_bytes_n st'" using sent k0 by simp
  have old: "\<forall>(j, t) \<in> set (send_window st).
        j = seq_number t \<and> data t \<noteq> [] \<and> seq_number t + int (length (data t)) \<le> sent_bytes_n st'"
    using ok mono by (fastforce simp: send_window_ok_def)
  show "send_window_ok st'"
  proof (cases "k > 0")
    case False
    then show ?thesis using old by (simp add: send_window_ok_def send_segment_Inr(3) [OF s])
  next
    case True
    then have ne: "data seg \<noteq> []" using kl by auto
    have len: "int (length (py_take k (data seg))) = k" using k0 kl by (rule length_py_take)
    have "seq_number seg + k \<le> sent_bytes_n st'"
      using seg sent kl ne by auto
    then show ?thesis using old True py_take_pos [OF True ne] len
      by (simp add: send_window_ok_def send_segment_Inr(3) [OF s])
  qed
qed


lemma receive_segment_cases [consumes 1, case_names fail ack dat]:
  assumes "receive_segment ch st = Inr (b, st')"
  obtains
    (fail) "rx_fails ch (rx_pos st)" "b = False" "st' = st\<lparr>rx_pos := Suc (rx_pos st)\<rparr>"
  | (ack) d where "rx ch (rx_pos st) = Datagram d"
      "data (load (take (mss + service_len) d)) = []" "b = True"
      "st' = process_send_window
               (st\<lparr>rx_pos := Suc (rx_pos st),
                   confirmed_bytes_n := ack_number (load (take (mss + service_len) d))\<rparr>)"
  | (dat) d st2 k st3 where "rx ch (rx_pos st) = Datagram d"
      "data (load (take (mss + service_len) d)) \<noteq> []" "b = True"
      "st2 = process_recv_window
               (st\<lparr>rx_pos := Suc (rx_pos st),
                   recv_window := put (seq_number (load (take (mss + service_len) d)),
                                       load (take (mss + service_len) d)) (recv_window st)\<rparr>)"
      "send_segment ch \<lparr>seq_number = sent_bytes_n st2, ack_number = received_bytes_n st2, data = []\<rparr> st2
         = Inr (k, st3)"
      "st' = process_send_window
               (st3\<lparr>confirmed_bytes_n := ack_number (load (take (mss + service_len) d))\<rparr>)"
proof (cases "rx ch (rx_pos st)")
  case Timeout
  with assms fail show ?thesis by (auto simp: receive_segment_def recvfrom_def rx_fails_def)
next
  case SocketFailure
  with assms fail show ?thesis by (auto simp: receive_segment_def recvfrom_def rx_fails_def)
next
  case (Datagram d)
  show ?thesis
  proof (cases "data (load (take (mss + service_len) d)) = []")
    case True
    with assms Datagram ack [of d] show ?thesis
      by (auto simp: receive_segment_def recvfrom_def Let_def)
  next
    case False
    with assms Datagram dat [of d] show ?thesis
      by (auto simp: receive_segment_def recvfrom_def Let_def split: sum.splits)
  qed
qed

lemma receive_segment_summary:
  assumes tx: "tx_ok ch" and ok: "send_window_ok st"
    and r: "receive_segment ch st = Inr (b, st')"
  shows "send_window_ok st'" and "sent_bytes_n st' = sent_bytes_n st"
    and "rx_pos st' = Suc (rx_pos st)"
    and "confirmed_bytes_n st' = (case inbound_ack ch st of None \<Rightarrow> confirmed_bytes_n st | Some a \<Rightarrow> a)"
    and "b \<longleftrightarrow> \<not> rx_fails ch (rx_pos st)"
    and "clk_pos st' = clk_pos st"
    and "set (send_window st') \<subseteq> set (send_window st)"
proof -
  have "send_window_ok st' \<and> sent_bytes_n st' = sent_bytes_n st \<and> rx_pos st' = Suc (rx_pos st)
      \<and> confirmed_bytes_n st' = (case inbound_ack ch st of None \<Rightarrow> confirmed_bytes_n st | Some a \<Rightarrow> a)
      \<and> (b \<longleftrightarrow> \<not> rx_fails ch (rx_pos st)) \<and> clk_pos st' = clk_pos st
      \<and> set (send_window st') \<subseteq> set (send_window st)"
    using r
  proof (cases rule: receive_segment_cases)
    case fail
    then show ?thesis using ok
      by (auto simp: send_window_ok_def inbound_ack_def rx_fails_def split: recv_outcome.splits)
  next
    case (ack d)
    let ?st1 = "st\<lparr>rx_pos := Suc (rx_pos st),
                   confirmed_bytes_n := ack_number (load (take (mss + service_len) d))\<rparr>"
    have "set (send_window (process_send_window ?st1)) \<subseteq> set (send_window st)"
      using psw_subset [of ?st1] by simp
    then show ?thesis using ack ok
      by (auto simp: send_window_ok_def inbound_ack_def rx_fails_def)
  next
    case (dat d st2 k st3)
    let ?seg = "\<lparr>seq_number = sent_bytes_n st2, ack_number = received_bytes_n st2, data = []\<rparr>"
    have ok2: "send_window_ok st2" using ok dat(4) by (simp add: send_window_ok_def)
    have s2: "sent_bytes_n st2 = sent_bytes_n st" "send_window st2 = send_window st"
      "rx_pos st2 = Suc (rx_pos st)" "clk_pos st2 = clk_pos st"
      using dat(4) by simp_all
    note sm = send_segment_summary [OF tx ok2 _ dat(5)]
    have k: "k = 0" using sm(2,3) by simp
    have ok3: "send_window_ok st3" using sm(1) by simp
    have s3: "sent_bytes_n st3 = sent_bytes_n st" using sm(4) k s2 by simp
    have w3: "send_window st3 = send_window st"
      using send_segment_Inr(3) [OF dat(5)] k s2 by simp
    let ?st4 = "st3\<lparr>confirmed_bytes_n := ack_number (load (take (mss + service_len) d))\<rparr>"
    have sub: "set (send_window (process_send_window ?st4)) \<subseteq> set (send_window st)"
      using psw_subset [of ?st4] w3 by simp
    have "send_window_ok st'"
      using sub ok s3 dat(6) by (auto simp: send_window_ok_def)
    then show ?thesis
      using dat s3 sub send_segment_Inr(8,9) [OF dat(5)] s2
      by (simp add: inbound_ack_def rx_fails_def)
  qed
  then show "send_window_ok st'" and "sent_bytes_n st' = sent_bytes_n st"
    and "rx_pos st' = Suc (rx_pos st)"
    and "confirmed_bytes_n st' = (case inbound_ack ch st of None \<Rightarrow> confirmed_bytes_n st | Some a \<Rightarrow> a)"
    and "b \<longleftrightarrow> \<not> rx_fails ch (rx_pos st)"
    and "clk_pos st' = clk_pos st"
    and "set (send_window st') \<subseteq> set (send_window st)"
    by simp_all
qed

lemma resend_cases [consumes 1, case_names idle fresh resent]:
  assumes "resend_earliest_segment ch st = Inr st'"
  obtains
    (idle) "send_window st = []" "st' = st"
  | (fresh) seq seg rest where "send_window st = (seq, seg) # rest" "\<not> clk ch (clk_pos st)"
      "st' = st\<lparr>clk_pos := Suc (clk_pos st)\<rparr>"
  | (resent) seq seg rest k where "send_window st = (seq, seg) # rest" "clk ch (clk_pos st)"
      "send_segment ch seg (st\<lparr>clk_pos := Suc (clk_pos st), send_window := rest\<rparr>) = Inr (k, st')"
  using assms
  by (cases "send_window st"; cases "clk ch (clk_pos st)")
     (auto simp: resend_earliest_segment_def expired_def split: sum.splits)

lemma resend_summary:
  assumes tx: "tx_ok ch" and ok: "send_window_ok st"
    and r: "resend_earliest_segment ch st = Inr st'"
  shows "send_window_ok st'" and "sent_bytes_n st' = sent_bytes_n st"
    and "confirmed_bytes_n st' = confirmed_bytes_n st"
    and "rx_pos st' = rx_pos st"
    and "received_bytes_n st' = received_bytes_n st"
proof -
  have "send_window_ok st' \<and> sent_bytes_n st' = sent_bytes_n st
      \<and> confirmed_bytes_n st' = confirmed_bytes_n st \<and> rx_pos st' = rx_pos st
      \<and> received_bytes_n st' = received_bytes_n st"
    using r
  proof (cases rule: resend_cases)
    case idle
    then show ?thesis using ok by simp
  next
    case (fresh seq seg rest)
    then show ?thesis using ok by (simp add: send_window_ok_def)
  next
    case (resent seq seg rest k)
    let ?st1 = "st\<lparr>clk_pos := Suc (clk_pos st), send_window := rest\<rparr>"
    have ok1: "send_window_ok ?st1" using ok resent(1) by (simp add: send_window_ok_def)
    have seg: "data seg \<noteq> [] \<and> seq_number seg + int (length (data seg)) \<le> sent_bytes_n ?st1"
      using ok resent(1) by (simp add: send_window_ok_def)
    then have ne: "seq_number seg \<noteq> sent_bytes_n ?st1" by auto
    note sm = send_segment_summary [OF tx ok1 disjI2 [OF seg] resent(3)]
    show ?thesis
      using sm(1) sm(4) ne send_segment_Inr(4,5,8) [OF resent(3)] by simp
  qed
  then show "send_window_ok st'" and "sent_bytes_n st' = sent_bytes_n st"
    and "confirmed_bytes_n st' = confirmed_bytes_n st"
    and "rx_pos st' = rx_pos st"
    and "received_bytes_n st' = received_bytes_n st"
    by simp_all
qed

lemma py_drop_nonneg: "0 \<le> k \<Longrightarrow> py_drop k xs = drop (nat k) xs"
  by (simp add: py_drop_def)

lemma send_new_segment_summary:
  assumes tx: "tx_ok ch" and ok: "send_window_ok st"
    and s: "send_new_segment ch dat sdl lag st = Inr (dat', sdl', lag', st')"
  shows "\<exists>k. 0 \<le> k \<and> k \<le> int (min mss (length dat)) \<and> dat' = drop (nat k) dat
           \<and> sdl' = sdl + k \<and> lag' = lag \<and> sent_bytes_n st' = sent_bytes_n st + k
           \<and> confirmed_bytes_n st' = confirmed_bytes_n st \<and> rx_pos st' = rx_pos st
           \<and> received_bytes_n st' = received_bytes_n st
           \<and> send_window_ok st'"
proof -
  let ?seg = "\<lparr>seq_number = sent_bytes_n st, ack_number = received_bytes_n st,
               data = take (min mss (length dat)) dat\<rparr>"
  from s obtain k where ss: "send_segment ch ?seg st = Inr (k, st')"
    and r: "dat' = py_drop k dat" "sdl' = sdl + k" "lag' = lag"
    by (auto simp: send_new_segment_def Let_def split: sum.splits)
  note sm = send_segment_summary [OF tx ok _ ss]
  have k0: "0 \<le> k" using sm(2) by simp
  have kl: "k \<le> int (min mss (length dat))" using sm(3) by simp
  show ?thesis
    using k0 kl r sm(1) sm(4) send_segment_Inr(4,5,8) [OF ss]
    by (intro exI [of _ k]) (simp add: py_drop_nonneg)
qed

lemma send_body_Inr:
  assumes "send_body ch dat sdl lag st = Inr (dat', sdl', lag', st')"
  shows "\<exists>st1. (if \<not> window_is_full st \<and> dat \<noteq> []
               then send_new_segment ch dat sdl lag st
               else wait_for_acks ch dat sdl lag st) = Inr (dat', sdl', lag', st1)
             \<and> resend_earliest_segment ch st1 = Inr st'"
proof -
  let ?b = "if \<not> window_is_full st \<and> dat \<noteq> []
            then send_new_segment ch dat sdl lag st
            else wait_for_acks ch dat sdl lag st"
  from assms obtain r where r: "?b = Inr r"
    unfolding send_body_def by (cases ?b) simp_all
  obtain dat1 len1 lag1 st1 where r4: "r = (dat1, len1, lag1, st1)" by (cases r) auto
  from assms r r4 obtain st2 where "resend_earliest_segment ch st1 = Inr st2"
    unfolding send_body_def by (cases "resend_earliest_segment ch st1") simp_all
  with assms r r4 show ?thesis unfolding send_body_def by simp
qed

lemma wait_for_acks_Inr:
  assumes "wait_for_acks ch dat sdl lag st = Inr (dat', sdl', lag', st')"
  shows "\<exists>b. receive_segment ch st = Inr (b, st') \<and> dat' = dat \<and> sdl' = sdl
            \<and> lag' = (if b then 0 else lag + 1)"
proof -
  from assms obtain r where r: "receive_segment ch st = Inr r"
    unfolding wait_for_acks_def by (cases "receive_segment ch st") simp_all
  obtain b st1 where "r = (b, st1)" by (cases r)
  with assms r show ?thesis unfolding wait_for_acks_def by (cases b) auto
qed

lemma send_body_summary:
  assumes tx: "tx_ok ch" and ok: "send_window_ok st"
    and s: "send_body ch dat sdl lag st = Inr (dat', sdl', lag', st')"
  shows "send_window_ok st'"
    and "receives (SendPass dat lag) st \<Longrightarrow>
           sent_bytes_n st' = sent_bytes_n st \<and> dat' = dat \<and> sdl' = sdl
           \<and> rx_pos st' = Suc (rx_pos st)
           \<and> lag' = (if rx_fails ch (rx_pos st) then lag + 1 else 0)
           \<and> confirmed_bytes_n st' =
               (case inbound_ack ch st of None \<Rightarrow> confirmed_bytes_n st | Some a \<Rightarrow> a)"
    and "\<not> receives (SendPass dat lag) st \<Longrightarrow>
           (\<exists>k. 0 \<le> k \<and> k \<le> int (min mss (length dat)) \<and> dat' = drop (nat k) dat
              \<and> sdl' = sdl + k \<and> sent_bytes_n st' = sent_bytes_n st + k)
           \<and> lag' = lag \<and> rx_pos st' = rx_pos st
           \<and> confirmed_bytes_n st' = confirmed_bytes_n st"
proof -
  from send_body_Inr [OF s] obtain st1 where
    b: "(if \<not> window_is_full st \<and> dat \<noteq> []
         then send_new_segment ch dat sdl lag st
         else wait_for_acks ch dat sdl lag st) = Inr (dat', sdl', lag', st1)"
    and r: "resend_earliest_segment ch st1 = Inr st'"
    by blast
  show "send_window_ok st'"
  proof (cases "\<not> window_is_full st \<and> dat \<noteq> []")
    case True
    with b send_new_segment_summary [OF tx ok, of dat sdl lag dat' sdl' lag' st1]
    have "send_window_ok st1" by auto
    then show ?thesis using resend_summary(1) [OF tx _ r] by simp
  next
    case False
    with b have "wait_for_acks ch dat sdl lag st = Inr (dat', sdl', lag', st1)" by simp
    from wait_for_acks_Inr [OF this] obtain bb where "receive_segment ch st = Inr (bb, st1)"
      by blast
    then have "send_window_ok st1" using receive_segment_summary(1) [OF tx ok] by simp
    then show ?thesis using resend_summary(1) [OF tx _ r] by simp
  qed
  {
    assume "receives (SendPass dat lag) st"
    then have F: "\<not> (\<not> window_is_full st \<and> dat \<noteq> [])" by auto
    with b have "wait_for_acks ch dat sdl lag st = Inr (dat', sdl', lag', st1)" by simp
    from wait_for_acks_Inr [OF this] obtain bb where rs: "receive_segment ch st = Inr (bb, st1)"
      and l: "dat' = dat" "sdl' = sdl" "lag' = (if bb then 0 else lag + 1)"
      by blast
    note rm = receive_segment_summary [OF tx ok rs]
    note rr = resend_summary [OF tx rm(1) r]
    show "sent_bytes_n st' = sent_bytes_n st \<and> dat' = dat \<and> sdl' = sdl
           \<and> rx_pos st' = Suc (rx_pos st)
           \<and> lag' = (if rx_fails ch (rx_pos st) then lag + 1 else 0)
           \<and> confirmed_bytes_n st' =
               (case inbound_ack ch st of None \<Rightarrow> confirmed_bytes_n st | Some a \<Rightarrow> a)"
      using l rm(2,3,4,5) rr(2,3,4) by simp
  }
  {
    assume "\<not> receives (SendPass dat lag) st"
    then have T: "\<not> window_is_full st \<and> dat \<noteq> []" by auto
    with b have "send_new_segment ch dat sdl lag st = Inr (dat', sdl', lag', st1)" by simp
    from send_new_segment_summary [OF tx ok this] obtain k where
      k: "0 \<le> k" "k \<le> int (min mss (length dat))" "dat' = drop (nat k) dat"
        "sdl' = sdl + k" "lag' = lag" "sent_bytes_n st1 = sent_bytes_n st + k"
        "confirmed_bytes_n st1 = confirmed_bytes_n st" "rx_pos st1 = rx_pos st"
        "send_window_ok st1"
      by blast
    note rr = resend_summary [OF tx k(9) r]
    show "(\<exists>k. 0 \<le> k \<and> k \<le> int (min mss (length dat)) \<and> dat' = drop (nat k) dat
              \<and> sdl' = sdl + k \<and> sent_bytes_n st' = sent_bytes_n st + k)
           \<and> lag' = lag \<and> rx_pos st' = rx_pos st
           \<and> confirmed_bytes_n st' = confirmed_bytes_n st"
      using k rr(2,3,4) by auto
  }
qed

lemma step_summary:
  assumes tx: "tx_ok ch" and ok: "send_window_ok st" and s: "step ch e st = Some st'"
  shows "send_window_ok st'"
    and "receives e st \<Longrightarrow>
           sent_bytes_n st' = sent_bytes_n st
           \<and> confirmed_bytes_n st' =
               (case inbound_ack ch st of None \<Rightarrow> confirmed_bytes_n st | Some a \<Rightarrow> a)"
    and "\<not> receives e st \<Longrightarrow>
           confirmed_bytes_n st' = confirmed_bytes_n st
           \<and> sent_bytes_n st \<le> sent_bytes_n st'
           \<and> (sent_bytes_n st' = sent_bytes_n st
                \<or> \<not> window_is_full st \<and> sent_bytes_n st' \<le> sent_bytes_n st + int mss)"
proof -
  have "send_window_ok st'
    \<and> (receives e st \<longrightarrow>
           sent_bytes_n st' = sent_bytes_n st
           \<and> confirmed_bytes_n st' =
               (case inbound_ack ch st of None \<Rightarrow> confirmed_bytes_n st | Some a \<Rightarrow> a))
    \<and> (\<not> receives e st \<longrightarrow>
           confirmed_bytes_n st' = confirmed_bytes_n st
           \<and> sent_bytes_n st \<le> sent_bytes_n st'
           \<and> (sent_bytes_n st' = sent_bytes_n st
                \<or> \<not> window_is_full st \<and> sent_bytes_n st' \<le> sent_bytes_n st + int mss))"
  proof (cases e)
    case (SendPass dat lag)
    with s obtain dat1 len1 lag1 where
      b: "send_body ch dat 0 lag st = Inr (dat1, len1, lag1, st')"
      by (auto split: if_splits sum.splits)
    note sm = send_body_summary [OF tx ok b]
    show ?thesis
    proof (cases "receives (SendPass dat lag) st")
      case True
      then show ?thesis using sm(1) sm(2) SendPass by simp
    next
      case False
      then have "\<not> window_is_full st" by simp
      then show ?thesis using False sm(1) sm(3) [OF False] SendPass by auto
    qed
  next
    case ReceiveSegment
    with s obtain b where r: "receive_segment ch st = Inr (b, st')"
      by (auto split: sum.splits)
    note rm = receive_segment_summary [OF tx ok r]
    show ?thesis using rm(1,2,4) ReceiveSegment by simp
  next
    case (TakeBuffer n)
    with s ok show ?thesis by (auto simp: send_window_ok_def)
  qed
  then show "send_window_ok st'"
    and "receives e st \<Longrightarrow>
           sent_bytes_n st' = sent_bytes_n st
           \<and> confirmed_bytes_n st' =
               (case inbound_ack ch st of None \<Rightarrow> confirmed_bytes_n st | Some a \<Rightarrow> a)"
    and "\<not> receives e st \<Longrightarrow>
           confirmed_bytes_n st' = confirmed_bytes_n st
           \<and> sent_bytes_n st \<le> sent_bytes_n st'
           \<and> (sent_bytes_n st' = sent_bytes_n st
                \<or> \<not> window_is_full st \<and> sent_bytes_n st' \<le> sent_bytes_n st + int mss)"
    by simp_all
qed

lemma run_send_window_ok:
  "tx_ok ch \<Longrightarrow> send_window_ok st \<Longrightarrow> run ch es st = Some st' \<Longrightarrow> send_window_ok st'"
proof (induction es arbitrary: st)
  case Nil
  then show ?case by simp
next
  case (Cons e es)
  from Cons.prems(3) obtain st1 where s: "step ch e st = Some st1" and r: "run ch es st1 = Some st'"
    by (auto split: option.splits)
  show ?case by (rule Cons.IH [OF Cons.prems(1) step_summary(1) [OF Cons.prems(1,2) s] r])
qed

lemma init_send_window_ok: "send_window_ok init"
  by (simp add: send_window_ok_def init_def)

lemma run_append:
  "run ch (es1 @ es2) st = (case run ch es1 st of None \<Rightarrow> None | Some st1 \<Rightarrow> run ch es2 st1)"
  by (induction es1 arbitrary: st) (auto split: option.splits)




section \<open>Evaluating concrete runs\<close>

lemma be_digits_numeral:
  "be_digits (numeral k) n = be_digits (pred_numeral k) (n div 256) @ [word_of_int (n mod 256)]"
  by (simp add: numeral_eq_Suc)

lemmas ev = init_def send_cond_def ack_crit_lag_def send_body_def window_is_full_def
  window_size_def mss_def send_new_segment_def send_segment_def dump_def to_bytes_def sendto_def
  service_len_def py_take_def py_drop_def put_def resend_earliest_segment_def expired_def Let_def
  wait_for_acks_def receive_segment_def recvfrom_def load_def from_bytes_def
  psw_Nil psw_drop psw_stop prw_Nil prw_eq prw_gt prw_lt be_digits_numeral
  wire_bytes_def full_send_def inbound_ack_def

lemma tx_ok_full_send: "tx ch = full_send \<Longrightarrow> tx_ok ch"
  by (simp add: tx_ok_def full_send_def service_len_def)


lemma acking_peer_run:
  "tx_ok acking_peer"
  "run acking_peer [SendPass [1] 0] init = Some one_byte_sent"
  "run acking_peer [SendPass [] 0] one_byte_sent = Some one_byte_acked"
  "run acking_peer [SendPass [1] 0, SendPass [] 0] init = Some one_byte_acked"
    by (rule tx_ok_full_send, simp add: acking_peer_def)
       (simp_all add: ev acking_peer_def one_byte_sent_def one_byte_acked_def)

section \<open>Counters\<close>




section \<open>Bytes in flight\<close>




section \<open>The send window holds no pure acknowledgment\<close>

text \<open>
  C8. \<open>_send_segment\<close> puts a segment into the send window exactly when the payload length
  that \<open>sendto\<close> reports is positive, and then with its payload cut to that length. With
  \<open>sendto\<close> keeping its contract, a segment without payload is never put there, and in every
  state reached from the initial one every segment of the send window has payload.
\<close>

theorem send_window_has_no_pure_ack:
  "(send_segment ch seg st0 = Inr (n, st1)
    \<longrightarrow> send_window st1 =
          (if n > 0 then put (seq_number seg, seg\<lparr>data := py_take n (data seg)\<rparr>) (send_window st0)
           else send_window st0))
   \<and> (tx_ok ch \<and> send_segment ch seg st0 = Inr (n, st1) \<and> data seg = []
    \<longrightarrow> send_window st1 = send_window st0)
   \<and> (tx_ok ch \<and> run ch es init = Some st
    \<longrightarrow> (\<forall>(k, s) \<in> set (send_window st). data s \<noteq> []))"
proof (intro conjI impI)
  assume "send_segment ch seg st0 = Inr (n, st1)"
  then show "send_window st1 =
          (if n > 0 then put (seq_number seg, seg\<lparr>data := py_take n (data seg)\<rparr>) (send_window st0)
           else send_window st0)"
    by (rule send_segment_Inr(3))
next
  assume a: "tx_ok ch \<and> send_segment ch seg st0 = Inr (n, st1) \<and> data seg = []"
  then obtain d m where d: "dump seg = Inr d" and m: "tx ch (tx_pos st0) d = Some m"
    and n: "n = m - 16"
    using send_segment_Inr(1) [of ch seg st0 n st1] by blast
  have l: "length d = 16" using dump_length [OF d] a by simp
  then have "service_len \<le> length d" by (simp add: service_len_def)
  with a m have "int service_len \<le> m \<and> m \<le> int (length d)"
    unfolding tx_ok_def by blast
  with l have "m \<le> 16" by simp
  with n have "\<not> n > 0" by simp
  with a show "send_window st1 = send_window st0"
    using send_segment_Inr(3) [of ch seg st0 n st1] by simp
next
  assume "tx_ok ch \<and> run ch es init = Some st"
  then have "send_window_ok st"
    using run_send_window_ok [OF _ init_send_window_ok] by blast
  then show "\<forall>(k, s) \<in> set (send_window st). data s \<noteq> []"
    by (auto simp: send_window_ok_def)
qed

theorem send_window_has_no_pure_ack_witness:
  "send_segment silent_peer \<lparr>seq_number = 0, ack_number = 0, data = []\<rparr> one_byte_sent
     = Inr (0, one_byte_sent\<lparr>tx_pos := 2, wire := [wire_bytes 0 0 [1], wire_bytes 0 0 []]\<rparr>)
   \<and> tx_ok silent_peer
   \<and> tx_ok acking_peer
   \<and> run acking_peer [SendPass [1] 0] init = Some one_byte_sent
   \<and> send_window (one_byte_sent\<lparr>tx_pos := 2, wire := [wire_bytes 0 0 [1], wire_bytes 0 0 []]\<rparr>)
       = send_window one_byte_sent
   \<and> list_all (\<lambda>(k, s). data s \<noteq> []) (send_window one_byte_sent)"
proof -
  let ?ack = "\<lparr>seq_number = 0, ack_number = 0, data = []\<rparr>"
  let ?st1 = "one_byte_sent\<lparr>tx_pos := 2, wire := [wire_bytes 0 0 [1], wire_bytes 0 0 []]\<rparr>"
  have h1: "send_segment silent_peer ?ack one_byte_sent = Inr (0, ?st1)"
    by (simp add: ev silent_peer_def one_byte_sent_def)
  have h2: "tx_ok silent_peer" by (rule tx_ok_full_send) (simp add: silent_peer_def)
  have h3: "data ?ack = []" by simp
  from send_window_has_no_pure_ack
    [of silent_peer ?ack one_byte_sent 0 ?st1]
  have a: "send_window ?st1 = send_window one_byte_sent"
    using h1 h2 h3 by blast
  from send_window_has_no_pure_ack
    [of acking_peer _ _ _ _ "[SendPass [1] 0]" one_byte_sent]
  have b: "\<forall>(k, s) \<in> set (send_window one_byte_sent). data s \<noteq> []"
    using acking_peer_run(1,2) by blast
  from a b h1 h2 acking_peer_run(1,2) show ?thesis
    by (simp add: list_all_iff)
qed

section \<open>Decoding any byte string\<close>

lemma from_bytes_short: "length bs \<le> 8 \<Longrightarrow> from_bytes bs < 2 ^ 64"
proof -
  assume "length bs \<le> 8"
  then have "(256::int) ^ length bs \<le> 256 ^ 8" by (intro power_increasing) simp_all
  with from_bytes_bound [of bs] show ?thesis by simp
qed

text \<open>
  C10. \<open>load\<close> is defined on every byte string: slicing and \<open>int.from_bytes\<close> accept any
  input, so no exception can arise and the model is a total function. The two numbers are
  read from the bytes that are there, which is the same as reading the field padded with
  zero bytes in front to eight bytes (an absent field reads as 0); both lie in \<open>[0, 2^64)\<close>.
  The payload is what follows the sixteenth byte, so it is empty when the input has at
  most sixteen bytes, and \<open>_receive_segment\<close> then treats the datagram as a pure
  acknowledgment.
\<close>

theorem load_total:
  "seq_number (load d) = from_bytes (replicate (8 - length (take 8 d)) 0 @ take 8 d)
   \<and> ack_number (load d)
       = from_bytes (replicate (8 - length (drop 8 (take 16 d))) 0 @ drop 8 (take 16 d))
   \<and> 0 \<le> seq_number (load d) \<and> seq_number (load d) < 2 ^ 64
   \<and> 0 \<le> ack_number (load d) \<and> ack_number (load d) < 2 ^ 64
   \<and> data (load d) = drop 16 d
   \<and> (length d \<le> 16 \<longrightarrow> data (load d) = [])
   \<and> (length d \<le> 8 \<longrightarrow> ack_number (load d) = 0)
   \<and> (d = [] \<longrightarrow> seq_number (load d) = 0)
   \<and> (rx ch (rx_pos st) = Datagram d \<and> length d \<le> 16
      \<longrightarrow> receive_segment ch st =
            Inr (True, process_send_window
                         (st\<lparr>rx_pos := Suc (rx_pos st), confirmed_bytes_n := ack_number (load d)\<rparr>)))"
proof -
  have s: "from_bytes (take 8 d) < 2 ^ 64" by (rule from_bytes_short) simp
  have a: "from_bytes (drop 8 (take 16 d)) < 2 ^ 64" by (rule from_bytes_short) simp
  have r: "receive_segment ch st =
            Inr (True, process_send_window
                         (st\<lparr>rx_pos := Suc (rx_pos st), confirmed_bytes_n := ack_number (load d)\<rparr>))"
    if "rx ch (rx_pos st) = Datagram d" "length d \<le> 16"
    using that by (simp add: receive_segment_def recvfrom_def mss_def service_len_def load_def)
  show ?thesis
    using s a r
    by (simp add: load_def service_len_def from_bytes_zero_padded from_bytes_nonneg)
       (simp add: from_bytes_def)
qed

theorem load_total_witness:
  "load [1, 2, 3, 4, 5, 6, 7, 8, 9, 10]
     = \<lparr>seq_number = 72623859790382856, ack_number = 2314, data = []\<rparr>
   \<and> load [1, 2, 3] = \<lparr>seq_number = 66051, ack_number = 0, data = []\<rparr>
   \<and> load [] = \<lparr>seq_number = 0, ack_number = 0, data = []\<rparr>
   \<and> receive_segment acking_peer init
       = Inr (True, init\<lparr>rx_pos := 1, confirmed_bytes_n := 1\<rparr>)"
proof -
  have e: "load [1, 2, 3, 4, 5, 6, 7, 8, 9, 10]
     = \<lparr>seq_number = 72623859790382856, ack_number = 2314, data = []\<rparr>"
    "load [1, 2, 3] = \<lparr>seq_number = 66051, ack_number = 0, data = []\<rparr>"
    "load [] = \<lparr>seq_number = 0, ack_number = 0, data = []\<rparr>"
    by (simp_all add: load_def from_bytes_def service_len_def)
  have d: "rx acking_peer (rx_pos init) = Datagram (wire_bytes 0 1 [])"
    "length (wire_bytes 0 1 []) \<le> 16"
    by (simp_all add: acking_peer_def init_def wire_bytes_def length_be_digits)
  have p: "process_send_window (init\<lparr>rx_pos := Suc (rx_pos init),
             confirmed_bytes_n := ack_number (load (wire_bytes 0 1 []))\<rparr>)
           = init\<lparr>rx_pos := 1, confirmed_bytes_n := 1\<rparr>"
    by (simp add: ev)
  from load_total [of "[1, 2, 3]" acking_peer init] load_total [of "wire_bytes 0 1 []" acking_peer init]
    e d p
  show ?thesis by simp
qed

section \<open>Receive-window reassembly\<close>














section \<open>recv\<close>

lemma receive_segment_fail:
  "rx_fails ch (rx_pos st) \<Longrightarrow>
   receive_segment ch st = Inr (False, st\<lparr>rx_pos := Suc (rx_pos st)\<rparr>)"
  by (auto simp: rx_fails_def receive_segment_def recvfrom_def split: recv_outcome.splits)

lemma recv_loop_length:
  "int (length dat) \<le> n \<Longrightarrow> recv_loop ch fuel n dat st = Some (Inr (bs, st')) \<Longrightarrow>
   int (length bs) \<le> n \<and> (\<exists>more. bs = dat @ more)"
proof (induction fuel arbitrary: dat st)
  case 0
  then show ?case by (auto split: if_splits)
next
  case (Suc fuel)
  show ?case
  proof (cases "int (length dat) < n")
    case False
    with Suc.prems show ?thesis by auto
  next
    case True
    from Suc.prems(2) True obtain b st1 where r: "receive_segment ch st = Inr (b, st1)"
      by (cases "receive_segment ch st") auto
    show ?thesis
    proof (cases b)
      case False
      with Suc.prems r True show ?thesis by auto
    next
      case b: True
      let ?add = "py_take (n - int (length dat)) (buffer st1)"
      let ?st2 = "st1\<lparr>buffer := py_drop (int (length ?add)) (buffer st1)\<rparr>"
      have l: "int (length ?add) \<le> n - int (length dat)"
        using True by (simp add: py_take_def)
      have rec: "recv_loop ch fuel n (dat @ ?add) ?st2 = Some (Inr (bs, st'))"
        using Suc.prems(2) True r b by (simp add: Let_def)
      have "int (length (dat @ ?add)) \<le> n" using l by simp
      from Suc.IH [OF this rec] show ?thesis by auto
    qed
  qed
qed

text \<open>
  C7, as the code has it. For every \<open>n \<ge> 0\<close>, what \<open>recv n\<close> returns has at most \<open>n\<close>
  bytes and starts with the first \<open>n\<close> bytes of the buffer (all of it, if it is shorter);
  when the buffer holds \<open>n\<close> bytes the call returns them without a receive attempt; and a
  receive attempt that fails ends the loop at once, the call returning the bytes gathered so
  far.
\<close>

theorem recv_at_most_n:
  "(0 \<le> n \<and> recv ch fuel n st = Some (Inr (bs, st'))
      \<longrightarrow> int (length bs) \<le> n \<and> (\<exists>more. bs = take (nat n) (buffer st) @ more))
   \<and> (0 \<le> n \<and> n \<le> int (length (buffer st))
      \<longrightarrow> recv ch fuel n st
            = Some (Inr (take (nat n) (buffer st), st\<lparr>buffer := drop (nat n) (buffer st)\<rparr>)))
   \<and> (int (length dat) < n \<and> rx_fails ch (rx_pos st)
      \<longrightarrow> recv_loop ch (Suc fuel) n dat st = Some (Inr (dat, st\<lparr>rx_pos := Suc (rx_pos st)\<rparr>)))
   \<and> (int (length (buffer st)) < n \<and> rx_fails ch (rx_pos st)
      \<longrightarrow> recv ch (Suc fuel) n st
            = Some (Inr (buffer st, st\<lparr>buffer := [], rx_pos := Suc (rx_pos st)\<rparr>)))"
proof -
  have p1: "int (length bs) \<le> n \<and> (\<exists>more. bs = take (nat n) (buffer st) @ more)"
    if a: "0 \<le> n \<and> recv ch fuel n st = Some (Inr (bs, st'))"
  proof -
    from a have n: "0 \<le> n"
      and r: "recv_loop ch fuel n (py_take n (buffer st)) (st\<lparr>buffer := py_drop n (buffer st)\<rparr>)
                = Some (Inr (bs, st'))"
      by (simp_all add: recv_def)
    have t: "py_take n (buffer st) = take (nat n) (buffer st)" using n by (simp add: py_take_def)
    have "int (length (py_take n (buffer st))) \<le> n" using n by (auto simp: t)
    from recv_loop_length [OF this r] show ?thesis by (simp only: t)
  qed
  have p2: "recv ch fuel n st
            = Some (Inr (take (nat n) (buffer st), st\<lparr>buffer := drop (nat n) (buffer st)\<rparr>))"
    if a: "0 \<le> n \<and> n \<le> int (length (buffer st))"
  proof -
    have t: "py_take n (buffer st) = take (nat n) (buffer st)"
      and d: "py_drop n (buffer st) = drop (nat n) (buffer st)"
      using a by (simp_all add: py_take_def py_drop_def)
    from a have "nat n \<le> length (buffer st)" by linarith
    then have "length (take (nat n) (buffer st)) = nat n" by simp
    with a have l: "\<not> int (length (take (nat n) (buffer st))) < n" by linarith
    have "recv_loop ch fuel n (take (nat n) (buffer st)) S
            = Some (Inr (take (nat n) (buffer st), S))" for S
      using l by (cases fuel) (simp_all del: length_take)
    then show ?thesis by (simp only: recv_def t d)
  qed
  have p3: "recv_loop ch (Suc fuel) n dat st = Some (Inr (dat, st\<lparr>rx_pos := Suc (rx_pos st)\<rparr>))"
    if "int (length dat) < n \<and> rx_fails ch (rx_pos st)"
    using that by (simp add: receive_segment_fail)
  have p4: "recv ch (Suc fuel) n st
            = Some (Inr (buffer st, st\<lparr>buffer := [], rx_pos := Suc (rx_pos st)\<rparr>))"
    if a: "int (length (buffer st)) < n \<and> rx_fails ch (rx_pos st)"
  proof -
    from a have "0 \<le> n" and "length (buffer st) \<le> nat n" by linarith+
    then have t: "py_take n (buffer st) = buffer st" and d: "py_drop n (buffer st) = []"
      by (simp_all add: py_take_def py_drop_def)
    from a show ?thesis
      by (simp add: recv_def t d receive_segment_fail)
  qed
  from p1 p2 p3 p4 show ?thesis by blast
qed

lemma crossing_peer_run: "run crossing_peer [ReceiveSegment] init = Some three_bytes_received"
  by (simp add: ev crossing_peer_def three_bytes_received_def)

theorem recv_at_most_n_witness:
  "run crossing_peer [ReceiveSegment] init = Some three_bytes_received
   \<and> recv crossing_peer 0 2 three_bytes_received
       = Some (Inr ([7, 7], three_bytes_received\<lparr>buffer := [7]\<rparr>))
   \<and> recv crossing_peer 1 5 three_bytes_received
       = Some (Inr ([7, 7, 7], three_bytes_received\<lparr>buffer := [], rx_pos := 2\<rparr>))
   \<and> recv_loop crossing_peer 1 5 [7, 7, 7] (three_bytes_received\<lparr>buffer := []\<rparr>)
       = Some (Inr ([7, 7, 7], three_bytes_received\<lparr>buffer := [], rx_pos := 2\<rparr>))
   \<and> int (length [7, 7 :: byte]) \<le> 2"
proof -
  have f: "rx_fails crossing_peer (rx_pos three_bytes_received)"
    by (simp add: rx_fails_def crossing_peer_def three_bytes_received_def)
  have a: "recv crossing_peer 0 2 three_bytes_received
       = Some (Inr ([7, 7], three_bytes_received\<lparr>buffer := [7]\<rparr>))"
    using recv_at_most_n [of 2 crossing_peer 0 three_bytes_received]
    by (simp add: three_bytes_received_def)
  have b: "recv crossing_peer 1 5 three_bytes_received
       = Some (Inr ([7, 7, 7], three_bytes_received\<lparr>buffer := [], rx_pos := 2\<rparr>))"
    using recv_at_most_n [of 5 crossing_peer 0 three_bytes_received] f
    by (simp add: three_bytes_received_def)
  have c: "recv_loop crossing_peer 1 5 [7, 7, 7] (three_bytes_received\<lparr>buffer := []\<rparr>)
       = Some (Inr ([7, 7, 7], three_bytes_received\<lparr>buffer := [], rx_pos := 2\<rparr>))"
    using recv_at_most_n [of 5 crossing_peer 0 "three_bytes_received\<lparr>buffer := []\<rparr>" _ _ "[7, 7, 7]"] f
    by (simp add: three_bytes_received_def)
  have d: "int (length [7, 7 :: byte]) \<le> 2"
    using recv_at_most_n [of 2 crossing_peer 0 three_bytes_received "[7, 7]"
        "three_bytes_received\<lparr>buffer := [7]\<rparr>"] a
    by simp
  from a b c d crossing_peer_run show ?thesis by simp
qed

text \<open>\<open>recv 1\<close> receives three bytes and returns the first; \<open>recv (-1)\<close> then returns
  all but the last byte of the buffer.\<close>

theorem recv_negative_n:
  "recv crossing_peer 1 1 init = Some (Inr ([7], three_bytes_received\<lparr>buffer := [7, 7]\<rparr>))
   \<and> recv crossing_peer 0 (- 1) (three_bytes_received\<lparr>buffer := [7, 7]\<rparr>)
       = Some (Inr ([7], three_bytes_received\<lparr>buffer := [7]\<rparr>))
   \<and> - 1 < int (length [7 :: byte])"
  by (simp add: recv_def ev crossing_peer_def three_bytes_received_def)

section \<open>What send returns\<close>



lemma send_Inr:
  "send ch fuel dat st = Some (Inr (n, st')) \<longleftrightarrow>
     (\<exists>rest. send_loop ch fuel dat 0 0 st = Some (Inr (n, rest, st')))"
  by (auto simp: send_def split: option.splits sum.splits)




section \<open>The ack field of outgoing segments\<close>

lemma dump_load: "dump seg = Inr d \<Longrightarrow> load d = seg"
proof -
  assume d: "dump seg = Inr d"
  from dump_Inr [OF d] have e: "d = be_digits 8 (seq_number seg) @ be_digits 8 (ack_number seg) @ data seg"
    and r: "0 \<le> seq_number seg" "seq_number seg < 256 ^ 8"
      "0 \<le> ack_number seg" "ack_number seg < 256 ^ 8"
    by simp_all
  have "load d = \<lparr>seq_number = from_bytes (be_digits 8 (seq_number seg)),
                   ack_number = from_bytes (be_digits 8 (ack_number seg)), data = data seg\<rparr>"
    by (simp add: load_def e service_len_def length_be_digits)
  also have "\<dots> = seg"
    using from_bytes_to_bytes(2) [OF r(1,2)] from_bytes_to_bytes(2) [OF r(3,4)] by simp
  finally show ?thesis .
qed

lemma send_segment_wire:
  assumes "send_segment ch seg st = Inr (k, st')"
  shows "\<exists>d. wire st' = wire st @ [d] \<and> load d = seg"
  using send_segment_Inr(1) [OF assms] dump_load by blast

text \<open>
  C2, as the code has it. A first transmission and a pure acknowledgment are built with
  \<open>ack_number = received_bytes_n\<close> and go to \<open>sendto\<close> at once, so the datagram carries the
  counter's value of that moment. A retransmission hands the stored segment of the head of
  the send window to \<open>sendto\<close> again: its \<open>ack\<close> field is the one the segment was built with.
\<close>

theorem ack_field_on_wire:
  "(send_new_segment ch dat sdl lag st = Inr (dat1, sdl1, lag1, st1)
      \<longrightarrow> (\<exists>d. wire st1 = wire st @ [d] \<and> ack_number (load d) = received_bytes_n st1))
   \<and> (receive_segment ch st = Inr (b, st2)
      \<longrightarrow> wire st2 = wire st
          \<or> (\<exists>d. wire st2 = wire st @ [d] \<and> data (load d) = []
                 \<and> ack_number (load d) = received_bytes_n st2))
   \<and> (resend_earliest_segment ch st = Inr st3
      \<longrightarrow> wire st3 = wire st
          \<or> (\<exists>k seg rest d. send_window st = (k, seg) # rest \<and> wire st3 = wire st @ [d]
                 \<and> ack_number (load d) = ack_number seg))"
proof -
  have p1: "\<exists>d. wire st1 = wire st @ [d] \<and> ack_number (load d) = received_bytes_n st1"
    if a: "send_new_segment ch dat sdl lag st = Inr (dat1, sdl1, lag1, st1)"
  proof -
    let ?seg = "\<lparr>seq_number = sent_bytes_n st, ack_number = received_bytes_n st,
                 data = take (min mss (length dat)) dat\<rparr>"
    from a obtain k where ss: "send_segment ch ?seg st = Inr (k, st1)"
      by (auto simp: send_new_segment_def Let_def split: sum.splits)
    from send_segment_wire [OF ss] send_segment_Inr(5) [OF ss] show ?thesis by auto
  qed
  have p2: "wire st2 = wire st
          \<or> (\<exists>d. wire st2 = wire st @ [d] \<and> data (load d) = []
                 \<and> ack_number (load d) = received_bytes_n st2)"
    if a: "receive_segment ch st = Inr (b, st2)"
    using a
  proof (cases rule: receive_segment_cases)
    case fail
    then show ?thesis by simp
  next
    case (ack d)
    then show ?thesis by simp
  next
    case (dat d st2' k st3')
    from send_segment_wire [OF dat(5)] obtain w where
      w: "wire st3' = wire st2' @ [w]"
        "load w = \<lparr>seq_number = sent_bytes_n st2', ack_number = received_bytes_n st2', data = []\<rparr>"
      by blast
    have "wire st2' = wire st" using dat(4) by simp
    moreover have "received_bytes_n st2 = received_bytes_n st2'"
      using dat(6) send_segment_Inr(5) [OF dat(5)] by simp
    moreover have "wire st2 = wire st3'" using dat(6) by simp
    ultimately show ?thesis using w by simp
  qed
  have p3: "wire st3 = wire st
          \<or> (\<exists>k seg rest d. send_window st = (k, seg) # rest \<and> wire st3 = wire st @ [d]
                 \<and> ack_number (load d) = ack_number seg)"
    if a: "resend_earliest_segment ch st = Inr st3"
    using a
  proof (cases rule: resend_cases)
    case idle
    then show ?thesis by simp
  next
    case (fresh seq seg rest)
    then show ?thesis by simp
  next
    case (resent seq seg rest k)
    from send_segment_wire [OF resent(3)] resent(1) show ?thesis by auto
  qed
  from p1 p2 p3 show ?thesis by blast
qed

lemma crossing_peer_resend:
  "resend_earliest_segment crossing_peer one_byte_sent
     = Inr (one_byte_sent\<lparr>tx_pos := 2, clk_pos := 2,
                           wire := [wire_bytes 0 0 [1], wire_bytes 0 0 [1]]\<rparr>)"
  by (simp add: ev crossing_peer_def one_byte_sent_def)

theorem ack_field_on_wire_witness:
  "send_new_segment acking_peer [1] 0 0 init = Inr ([], 1, 0, one_byte_sent\<lparr>clk_pos := 0\<rparr>)
   \<and> ack_number (load (last (wire (one_byte_sent\<lparr>clk_pos := 0\<rparr>))))
       = received_bytes_n (one_byte_sent\<lparr>clk_pos := 0\<rparr>)
   \<and> receive_segment crossing_peer init = Inr (True, three_bytes_received)
   \<and> ack_number (load (last (wire three_bytes_received))) = received_bytes_n three_bytes_received
   \<and> resend_earliest_segment crossing_peer one_byte_sent
       = Inr (one_byte_sent\<lparr>tx_pos := 2, clk_pos := 2,
                             wire := [wire_bytes 0 0 [1], wire_bytes 0 0 [1]]\<rparr>)
   \<and> ack_number (load (wire_bytes 0 0 [1])) = ack_number (snd (hd (send_window one_byte_sent)))"
proof -
  let ?s = "one_byte_sent\<lparr>clk_pos := 0\<rparr>"
  let ?r = "one_byte_sent\<lparr>tx_pos := 2, clk_pos := 2,
                           wire := [wire_bytes 0 0 [1], wire_bytes 0 0 [1]]\<rparr>"
  have h1: "send_new_segment acking_peer [1] 0 0 init = Inr ([], 1, 0, ?s)"
    by (simp add: ev acking_peer_def one_byte_sent_def)
  have h2: "receive_segment crossing_peer init = Inr (True, three_bytes_received)"
    by (simp add: ev crossing_peer_def three_bytes_received_def)
  have a: "ack_number (load (last (wire ?s))) = received_bytes_n ?s"
    using ack_field_on_wire [where ch = acking_peer and dat = "[1]" and sdl = 0 and lag = 0
        and st = init and ?dat1.0 = "[]" and ?sdl1.0 = 1 and ?lag1.0 = 0 and ?st1.0 = ?s] h1
    by (auto simp: init_def one_byte_sent_def)
  have b: "ack_number (load (last (wire three_bytes_received))) = received_bytes_n three_bytes_received"
    using ack_field_on_wire [where ch = crossing_peer and st = init and b = True
        and ?st2.0 = three_bytes_received] h2
    by (auto simp: init_def three_bytes_received_def)
  have c: "ack_number (load (wire_bytes 0 0 [1])) = ack_number (snd (hd (send_window one_byte_sent)))"
    using ack_field_on_wire [where ch = crossing_peer and st = one_byte_sent and ?st3.0 = ?r]
      crossing_peer_resend
    by (auto simp: one_byte_sent_def)
  from a b c h1 h2 crossing_peer_resend show ?thesis by simp
qed

text \<open>The first two passes of \<open>send\<close> on one byte: the second receives three bytes
  from the peer and then finds the timer of the first segment run out.\<close>

theorem retransmission_has_stale_ack:
  "map_option (\<lambda>st. (load (last (wire st)), received_bytes_n st))
     (run crossing_peer [SendPass [1] 0, SendPass [] 0] init)
     = Some (\<lparr>seq_number = 0, ack_number = 0, data = [1]\<rparr>, 3)"
  by (simp add: ev crossing_peer_def)

section \<open>Termination of send\<close>
















section \<open>Calls of send and recv as sequences of events\<close>

text \<open>
  Every call of \<open>send\<close> or \<open>recv\<close> that returns has taken the endpoint through a sequence
  of events, so what holds along all sequences of events holds before and after every call
  and at every pass in between.
\<close>

lemma send_body_tally:
  assumes "send_body ch dat sdl lag st = Inr (dat1, len1, lag1, st1)"
  shows "send_body ch dat 0 lag st = Inr (dat1, len1 - sdl, lag1, st1)"
proof -
  from send_body_Inr [OF assms] obtain st0 where
    b: "(if \<not> window_is_full st \<and> dat \<noteq> []
         then send_new_segment ch dat sdl lag st
         else wait_for_acks ch dat sdl lag st) = Inr (dat1, len1, lag1, st0)"
    and r: "resend_earliest_segment ch st0 = Inr st1"
    by blast
  have "(if \<not> window_is_full st \<and> dat \<noteq> []
         then send_new_segment ch dat 0 lag st
         else wait_for_acks ch dat 0 lag st) = Inr (dat1, len1 - sdl, lag1, st0)"
  proof (cases "\<not> window_is_full st \<and> dat \<noteq> []")
    case True
    let ?seg = "\<lparr>seq_number = sent_bytes_n st, ack_number = received_bytes_n st,
                 data = take (min mss (length dat)) dat\<rparr>"
    from True b obtain k where "send_segment ch ?seg st = Inr (k, st0)"
      and "dat1 = py_drop k dat" "len1 = sdl + k" "lag1 = lag"
      by (auto simp: send_new_segment_def Let_def split: sum.splits)
    with True show ?thesis by (simp add: send_new_segment_def Let_def)
  next
    case False
    with b have "wait_for_acks ch dat sdl lag st = Inr (dat1, len1, lag1, st0)" by simp
    from wait_for_acks_Inr [OF this] obtain bb where
      "receive_segment ch st = Inr (bb, st0)" "dat1 = dat" "len1 = sdl"
      "lag1 = (if bb then 0 else lag + 1)"
      by blast
    then have "wait_for_acks ch dat 0 lag st = Inr (dat1, len1 - sdl, lag1, st0)"
      by (cases bb) (simp_all add: wait_for_acks_def)
    with False show ?thesis by auto
  qed
  with r show ?thesis by (simp add: send_body_def)
qed

lemma send_loop_events:
  "send_loop ch fuel dat sdl lag st = Some (Inr (n, rest, st')) \<Longrightarrow>
   \<exists>es. run ch es st = Some st' \<and> length es \<le> fuel"
proof (induction fuel arbitrary: dat sdl lag st)
  case 0
  then have "st' = st" by (auto split: if_splits)
  then have "run ch [] st = Some st'" by simp
  then show ?case by blast
next
  case (Suc fuel)
  show ?case
  proof (cases "send_cond dat lag st")
    case False
    with Suc.prems have "run ch [] st = Some st'" by simp
    then show ?thesis by (intro exI [of _ "[]"]) simp
  next
    case True
    with Suc.prems obtain r where b0: "send_body ch dat sdl lag st = Inr r"
      by (cases "send_body ch dat sdl lag st") auto
    obtain dat1 len1 lag1 st1 where r: "r = (dat1, len1, lag1, st1)" by (cases r) auto
    note b = b0 [unfolded r]
    have "send_loop ch fuel dat1 len1 lag1 st1 = Some (Inr (n, rest, st'))"
      using Suc.prems True b by simp
    from Suc.IH [OF this] obtain es where es: "run ch es st1 = Some st'" "length es \<le> fuel"
      by blast
    have "step ch (SendPass dat lag) st = Some st1"
      using True send_body_tally [OF b] by simp
    with es have "run ch (SendPass dat lag # es) st = Some st'" by simp
    with es(2) show ?thesis by (intro exI [of _ "SendPass dat lag # es"]) simp
  qed
qed

lemma send_events:
  "send ch fuel dat st = Some (Inr (n, st')) \<Longrightarrow> \<exists>es. run ch es st = Some st'"
  using send_loop_events by (fastforce simp: send_Inr)

lemma recv_loop_events:
  "recv_loop ch fuel n dat st = Some (Inr (bs, st')) \<Longrightarrow> \<exists>es. run ch es st = Some st'"
proof (induction fuel arbitrary: dat st)
  case 0
  then have "run ch [] st = Some st'" by (auto split: if_splits)
  then show ?case by blast
next
  case (Suc fuel)
  show ?case
  proof (cases "int (length dat) < n")
    case False
    with Suc.prems have "run ch [] st = Some st'" by simp
    then show ?thesis by blast
  next
    case True
    with Suc.prems obtain b st1 where r: "receive_segment ch st = Inr (b, st1)"
      by (cases "receive_segment ch st") auto
    then have s: "step ch ReceiveSegment st = Some st1" by simp
    show ?thesis
    proof (cases b)
      case False
      with Suc.prems True r have "st' = st1" by simp
      with s have "run ch [ReceiveSegment] st = Some st'" by simp
      then show ?thesis by blast
    next
      case b: True
      let ?add = "py_take (n - int (length dat)) (buffer st1)"
      let ?st2 = "st1\<lparr>buffer := py_drop (int (length ?add)) (buffer st1)\<rparr>"
      have "recv_loop ch fuel n (dat @ ?add) ?st2 = Some (Inr (bs, st'))"
        using Suc.prems True r b by (simp add: Let_def)
      from Suc.IH [OF this] obtain es where "run ch es ?st2 = Some st'" by blast
      with s have "run ch (ReceiveSegment # TakeBuffer (int (length ?add)) # es) st = Some st'"
        by simp
      then show ?thesis by blast
    qed
  qed
qed

lemma recv_events:
  assumes "recv ch fuel n st = Some (Inr (bs, st'))"
  shows "\<exists>es. run ch es st = Some st'"
proof -
  from assms recv_loop_events obtain es where
    "run ch es (st\<lparr>buffer := py_drop n (buffer st)\<rparr>) = Some st'"
    unfolding recv_def by blast
  then have "run ch (TakeBuffer n # es) st = Some st'" by simp
  then show ?thesis by blast
qed

end
